theory Spec2Isabelle
  imports Main "HOL-Library.Word"
begin

section \<open>The C types of \<open>binary_search.c\<close>\<close>

text \<open>
  \<open>unsigned int\<close> (the query \<open>r\<close> and every entry value \<open>l\<close>, both produced by
  \<open>NUM2UINT\<close>) is a 32-bit word, compared in unsigned order.
\<close>

type_synonym uint = "32 word"

text \<open>
  \<open>int\<close> (\<open>upper\<close>, \<open>lower\<close>, \<open>idx\<close>) is a mathematical integer kept inside
  \<open>[- 2^31, 2^31 - 1]\<close> by writing out the two's complement wrap-around after every
  operation that can leave the range: \<open>to_int\<close> is the value an \<open>int\<close> holds after it
  is assigned \<open>x\<close>. The C standard leaves signed overflow undefined; the wrap-around is
  what the compiled code does, and in a run of \<open>binary_search\<close> a sum that overflows is
  followed at once by a read outside the array, which ends the run of the model.
\<close>

definition INT_MAX :: int where
  "INT_MAX = 2147483647"

definition to_int :: "int \<Rightarrow> int" where
  "to_int x = (x + 2147483648) mod 4294967296 - 2147483648"

definition int_add :: "int \<Rightarrow> int \<Rightarrow> int" where
  "int_add a b = to_int (a + b)"

definition int_sub :: "int \<Rightarrow> int \<Rightarrow> int" where
  "int_sub a b = to_int (a - b)"

text \<open>The C operator \<open>/\<close> on \<open>int\<close> truncates towards zero.\<close>

definition int_div :: "int \<Rightarrow> int \<Rightarrow> int" where
  "int_div a b = sgn a * sgn b * (\<bar>a\<bar> div \<bar>b\<bar>)"

text \<open>
  \<open>RARRAY_PTR(ary)[idx]\<close> with \<open>idx\<close> outside \<open>0 .. RARRAY_LEN(ary) - 1\<close> is undefined
  behaviour in C; the model stops there with an error that records the index.
\<close>

datatype error = OutOfBounds int

section \<open>The function \<open>binary_search\<close>\<close>

text \<open>
  The \<open>while\<close> loop of lines 32 to 46. The array \<open>ary\<close> is the list of the values that
  the entries' \<open>value\<close> method returns, \<open>r\<close> is the converted query. The last argument
  is a ghost variable: the indices at which an entry has been read so far, in order. The
  loop ends with that list and either the index handed to \<open>INT2FIX\<close> or the error.
\<close>

partial_function (option) search_loop ::
  "uint list \<Rightarrow> uint \<Rightarrow> int \<Rightarrow> int \<Rightarrow> int list \<Rightarrow> (int list \<times> (error + int)) option"
where
  "search_loop ary r lower upper reads =
     (if lower \<le> upper then
        (let idx = int_div (int_add lower upper) 2 in
         if idx < 0 \<or> int (length ary) \<le> idx
         then Some (reads @ [idx], Inl (OutOfBounds idx))
         else
           (let l = ary ! nat idx in
            if l = r then Some (reads @ [idx], Inr idx)
            else if l > r then search_loop ary r lower (int_sub idx 1) (reads @ [idx])
            else search_loop ary r (int_add idx 1) upper (reads @ [idx])))
      else Some (reads, Inr upper))"

text \<open>
  Lines 26 to 28: \<open>upper\<close> is \<open>RARRAY_LEN(ary) - 1\<close> (a \<open>long\<close>) converted to \<open>int\<close>,
  \<open>lower\<close> is 0.
\<close>

definition binary_search_run :: "uint list \<Rightarrow> uint \<Rightarrow> (int list \<times> (error + int)) option" where
  "binary_search_run ary number = search_loop ary number 0 (to_int (int (length ary) - 1)) []"

definition binary_search :: "uint list \<Rightarrow> uint \<Rightarrow> (error + int) option" where
  "binary_search ary number = map_option snd (binary_search_run ary number)"

definition probes :: "uint list \<Rightarrow> uint \<Rightarrow> int list option" where
  "probes ary number = map_option fst (binary_search_run ary number)"

section \<open>The search as the specification words it\<close>

text \<open>
  The routine of section 4.1 of the specification, for comparison with the code. It is
  also the Ruby method quoted in the comment of lines 4 to 24 of the file, which the C
  function replaces. Bounds and midpoint are unbounded integers, the midpoint is
  \<open>floor((lower + upper) / 2)\<close>, an entry equal to the query ends the search at once, a
  larger entry moves \<open>upper\<close> to \<open>idx - 1\<close>, a smaller one moves \<open>lower\<close> to
  \<open>idx + 1\<close>, and an empty interval returns \<open>upper\<close>. The first component is the probe
  path, the indices read in order; the second is the index returned.
\<close>

function spec_search :: "uint list \<Rightarrow> uint \<Rightarrow> int \<Rightarrow> int \<Rightarrow> int list \<times> int" where
  "spec_search S q lower upper =
     (if lower \<le> upper then
        (let idx = (lower + upper) div 2; entryValue = S ! nat idx in
         if entryValue = q then ([idx], idx)
         else if entryValue > q then apfst (Cons idx) (spec_search S q lower (idx - 1))
         else apfst (Cons idx) (spec_search S q (idx + 1) upper))
      else ([], upper))"
  by pat_completeness auto
termination
  by (relation "measure (\<lambda>(S, q, lower, upper). nat (upper - lower + 1))") auto

declare spec_search.simps [simp del]

section \<open>Integer arithmetic inside the range\<close>

lemma to_int_id: "- 2147483648 \<le> x \<Longrightarrow> x \<le> 2147483647 \<Longrightarrow> to_int x = x"
  by (simp add: to_int_def)

lemma to_int_high:
  assumes "2147483648 \<le> x" "x \<le> 4294967294"
  shows "to_int x = x - 4294967296"
proof -
  have "(x + 2147483648) mod 4294967296 = x + 2147483648 - 4294967296"
    using assms by (simp add: mod_pos_geq)
  then show ?thesis by (simp add: to_int_def)
qed

lemma to_int_range: "- 2147483648 \<le> to_int x \<and> to_int x \<le> 2147483647"
proof -
  have "0 \<le> (x + 2147483648) mod 4294967296" "(x + 2147483648) mod 4294967296 < 4294967296"
    by simp_all
  then show ?thesis unfolding to_int_def by linarith
qed

lemma to_int_le: "0 \<le> x \<Longrightarrow> to_int x \<le> x"
proof -
  assume "0 \<le> x"
  then have "(x + 2147483648) mod 4294967296 \<le> x + 2147483648"
    by (simp add: zmod_le_nonneg_dividend)
  then show ?thesis by (simp add: to_int_def)
qed

lemma int_div_2_nonneg: "0 \<le> a \<Longrightarrow> int_div a 2 = a div 2"
  by (cases "a = 0") (simp_all add: int_div_def)

lemma int_div_2_neg: "a \<le> - 2 \<Longrightarrow> int_div a 2 < 0"
proof -
  assume a: "a \<le> - 2"
  then have "1 \<le> \<bar>a\<bar> div 2" by linarith
  moreover have "sgn a = - 1" using a by simp
  ultimately show ?thesis by (simp add: int_div_def)
qed

text \<open>The midpoint of line 33 when the sum fits the type, and when it does not.\<close>

lemma midpoint_exact:
  assumes "0 \<le> lower" "lower \<le> upper" "lower + upper \<le> 2147483647"
  shows "int_div (int_add lower upper) 2 = (lower + upper) div 2"
  using assms by (simp add: int_add_def to_int_id int_div_2_nonneg)

lemma midpoint_overflow:
  assumes "0 \<le> lower" "lower \<le> upper" "upper \<le> 2147483647" "2147483647 < lower + upper"
  shows "int_div (int_add lower upper) 2 < 0"
proof -
  have "to_int (lower + upper) = lower + upper - 4294967296"
    using assms by (intro to_int_high) linarith+
  then show ?thesis
    using assms by (simp add: int_add_def int_div_2_neg)
qed

section \<open>One iteration of the loop\<close>

lemma search_loop_exit:
  "\<not> lower \<le> upper \<Longrightarrow> search_loop ary r lower upper reads = Some (reads, Inr upper)"
  by (subst search_loop.simps) simp

lemma search_loop_fault:
  assumes "lower \<le> upper" "idx = int_div (int_add lower upper) 2"
    and "idx < 0 \<or> int (length ary) \<le> idx"
  shows "search_loop ary r lower upper reads = Some (reads @ [idx], Inl (OutOfBounds idx))"
  using assms by (subst search_loop.simps) (simp add: Let_def)

lemma search_loop_hit:
  assumes "lower \<le> upper" "idx = int_div (int_add lower upper) 2"
    and "0 \<le> idx" "idx < int (length ary)" "ary ! nat idx = r"
  shows "search_loop ary r lower upper reads = Some (reads @ [idx], Inr idx)"
  using assms by (subst search_loop.simps) (simp add: Let_def)

lemma search_loop_left:
  assumes "lower \<le> upper" "idx = int_div (int_add lower upper) 2"
    and "0 \<le> idx" "idx < int (length ary)" "ary ! nat idx \<noteq> r" "r < ary ! nat idx"
  shows "search_loop ary r lower upper reads
           = search_loop ary r lower (int_sub idx 1) (reads @ [idx])"
  using assms by (subst search_loop.simps) (simp add: Let_def)

lemma search_loop_right:
  assumes "lower \<le> upper" "idx = int_div (int_add lower upper) 2"
    and "0 \<le> idx" "idx < int (length ary)" "ary ! nat idx \<noteq> r" "\<not> r < ary ! nat idx"
  shows "search_loop ary r lower upper reads
           = search_loop ary r (int_add idx 1) upper (reads @ [idx])"
  using assms by (subst search_loop.simps) (simp add: Let_def)

section \<open>The loop of the model from any reachable bounds\<close>

text \<open>
  From any bounds the call can reach (\<open>lower\<close> not negative, \<open>upper\<close> an \<open>int\<close>) the run
  of the model ends, with an index or at a read outside the array, and it reads at most as
  many entries as the interval \<open>[lower, upper]\<close> has indices: an iteration whose sum
  fits \<open>int\<close> returns or leaves a strictly smaller interval, and one whose sum does not
  fit reads outside the array.
\<close>

lemma search_loop_returns:
  assumes "0 \<le> lower" "upper \<le> 2147483647"
  shows "\<exists>new res. search_loop ary r lower upper reads = Some (reads @ new, res)
           \<and> int (length new) \<le> max 0 (upper - lower + 1)"
  using assms
proof (induction "nat (upper - lower + 1)" arbitrary: lower upper reads rule: less_induct)
  case less
  show ?case
  proof (cases "lower \<le> upper")
    case False
    then show ?thesis by (simp add: search_loop_exit)
  next
    case True
    define idx where "idx = int_div (int_add lower upper) 2"
    show ?thesis
    proof (cases "2147483647 < lower + upper")
      case True
      then have "idx < 0"
        unfolding idx_def using less.prems \<open>lower \<le> upper\<close> by (intro midpoint_overflow) simp_all
      then have "search_loop ary r lower upper reads = Some (reads @ [idx], Inl (OutOfBounds idx))"
        using \<open>lower \<le> upper\<close> idx_def by (intro search_loop_fault) simp_all
      then show ?thesis using \<open>lower \<le> upper\<close> by simp
    next
      case False
      then have mid: "idx = (lower + upper) div 2"
        unfolding idx_def using less.prems \<open>lower \<le> upper\<close> by (intro midpoint_exact) simp_all
      then have bnd: "lower \<le> idx" "idx \<le> upper" "idx \<le> 1073741823"
        using \<open>lower \<le> upper\<close> False by linarith+
      have down: "int_sub idx 1 = idx - 1"
        using bnd less.prems by (simp add: int_sub_def to_int_id)
      have up: "int_add idx 1 = idx + 1"
        using bnd less.prems by (simp add: int_add_def to_int_id)
      have left: "\<exists>new res. search_loop ary r lower (idx - 1) (reads @ [idx])
                     = Some ((reads @ [idx]) @ new, res)
                   \<and> int (length new) \<le> max 0 (idx - 1 - lower + 1)"
        using bnd less.prems by (intro less.hyps) simp_all
      have right: "\<exists>new res. search_loop ary r (idx + 1) upper (reads @ [idx])
                     = Some ((reads @ [idx]) @ new, res)
                   \<and> int (length new) \<le> max 0 (upper - (idx + 1) + 1)"
        using bnd less.prems by (intro less.hyps) simp_all
      consider (bad) "idx < 0 \<or> int (length ary) \<le> idx"
        | (hit) "0 \<le> idx" "idx < int (length ary)" "ary ! nat idx = r"
        | (gt) "0 \<le> idx" "idx < int (length ary)" "ary ! nat idx \<noteq> r" "r < ary ! nat idx"
        | (lt) "0 \<le> idx" "idx < int (length ary)" "ary ! nat idx \<noteq> r" "\<not> r < ary ! nat idx"
        by linarith
      then show ?thesis
      proof cases
        case bad
        then have "search_loop ary r lower upper reads = Some (reads @ [idx], Inl (OutOfBounds idx))"
          using \<open>lower \<le> upper\<close> idx_def by (intro search_loop_fault) simp_all
        then show ?thesis using \<open>lower \<le> upper\<close> by simp
      next
        case hit
        then have "search_loop ary r lower upper reads = Some (reads @ [idx], Inr idx)"
          using \<open>lower \<le> upper\<close> idx_def by (intro search_loop_hit) simp_all
        then show ?thesis using \<open>lower \<le> upper\<close> by simp
      next
        case gt
        have "search_loop ary r lower upper reads
                     = search_loop ary r lower (idx - 1) (reads @ [idx])"
          using search_loop_left [OF \<open>lower \<le> upper\<close> idx_def gt] unfolding down .
        with left obtain new res where
          "search_loop ary r lower upper reads = Some (reads @ (idx # new), res)"
          "int (length new) \<le> max 0 (idx - 1 - lower + 1)"
          by auto
        then show ?thesis using bnd by (intro exI [of _ "idx # new"] exI [of _ res]) simp
      next
        case lt
        have "search_loop ary r lower upper reads
                     = search_loop ary r (idx + 1) upper (reads @ [idx])"
          using search_loop_right [OF \<open>lower \<le> upper\<close> idx_def lt] unfolding up .
        with right obtain new res where
          "search_loop ary r lower upper reads = Some (reads @ (idx # new), res)"
          "int (length new) \<le> max 0 (upper - (idx + 1) + 1)"
          by auto
        then show ?thesis using bnd by (intro exI [of _ "idx # new"] exI [of _ res]) simp
      qed
    qed
  qed
qed

section \<open>The code against the specification's search\<close>

text \<open>
  As long as the array has at most \<open>2^30\<close> entries, \<open>lower + upper\<close> stays below
  \<open>2^31\<close>, no operation on \<open>int\<close> wraps, no read leaves the array, and the loop of
  the code computes the search of the specification: same probes, same index.
\<close>

lemma search_loop_refines:
  assumes "0 \<le> lower" "upper < int (length ary)" "length ary \<le> 1073741824"
  shows "search_loop ary r lower upper reads
           = Some (reads @ fst (spec_search ary r lower upper),
                   Inr (snd (spec_search ary r lower upper)))"
  using assms
proof (induction ary r lower upper arbitrary: reads rule: spec_search.induct)
  case (1 S q lower upper)
  show ?case
  proof (cases "lower \<le> upper")
    case False
    then show ?thesis
      by (simp add: search_loop_exit spec_search.simps [of S q lower upper])
  next
    case True
    define idx where "idx = (lower + upper) div 2"
    have sum: "lower + upper \<le> 2147483647"
      using "1.prems" True by linarith
    have mid: "idx = int_div (int_add lower upper) 2"
      unfolding idx_def using "1.prems" True sum by (simp add: midpoint_exact)
    have bnd: "lower \<le> idx" "idx \<le> upper" "0 \<le> idx" "idx < int (length S)"
      using True "1.prems" unfolding idx_def by linarith+
    have down: "int_sub idx 1 = idx - 1"
      using bnd "1.prems" by (simp add: int_sub_def to_int_id)
    have up: "int_add idx 1 = idx + 1"
      using bnd "1.prems" by (simp add: int_add_def to_int_id)
    consider (hit) "S ! nat idx = q"
      | (gt) "S ! nat idx \<noteq> q" "q < S ! nat idx"
      | (lt) "S ! nat idx \<noteq> q" "\<not> q < S ! nat idx"
      by blast
    then show ?thesis
    proof cases
      case hit
      have "spec_search S q lower upper = ([idx], idx)"
        using True hit by (subst spec_search.simps) (simp add: idx_def Let_def)
      moreover have "search_loop S q lower upper reads = Some (reads @ [idx], Inr idx)"
        using True mid bnd hit by (intro search_loop_hit)
      ultimately show ?thesis by simp
    next
      case gt
      have sp: "spec_search S q lower upper = apfst (Cons idx) (spec_search S q lower (idx - 1))"
        using True gt by (subst spec_search.simps) (simp add: idx_def Let_def)
      have "search_loop S q lower upper reads = search_loop S q lower (idx - 1) (reads @ [idx])"
        using search_loop_left [OF True mid bnd(3,4) gt] unfolding down .
      also have "\<dots> = Some ((reads @ [idx]) @ fst (spec_search S q lower (idx - 1)),
                            Inr (snd (spec_search S q lower (idx - 1))))"
        using True gt bnd "1.prems" by (intro "1.IH"(1) [OF True idx_def refl]) simp_all
      finally show ?thesis by (simp add: sp)
    next
      case lt
      have sp: "spec_search S q lower upper = apfst (Cons idx) (spec_search S q (idx + 1) upper)"
        using True lt by (subst spec_search.simps) (simp add: idx_def Let_def)
      have "search_loop S q lower upper reads = search_loop S q (idx + 1) upper (reads @ [idx])"
        using search_loop_right [OF True mid bnd(3,4) lt] unfolding up .
      also have "\<dots> = Some ((reads @ [idx]) @ fst (spec_search S q (idx + 1) upper),
                            Inr (snd (spec_search S q (idx + 1) upper)))"
        using True lt bnd "1.prems" by (intro "1.IH"(2) [OF True idx_def refl]) simp_all
      finally show ?thesis by (simp add: sp)
    qed
  qed
qed


lemma spec_search_exit: "\<not> lower \<le> upper \<Longrightarrow> spec_search S q lower upper = ([], upper)"
  by (subst spec_search.simps) simp

lemma spec_search_hit:
  "lower \<le> upper \<Longrightarrow> S ! nat ((lower + upper) div 2) = q
     \<Longrightarrow> spec_search S q lower upper = ([(lower + upper) div 2], (lower + upper) div 2)"
  by (subst spec_search.simps) (simp add: Let_def)

lemma spec_search_left:
  "lower \<le> upper \<Longrightarrow> S ! nat ((lower + upper) div 2) \<noteq> q \<Longrightarrow> q < S ! nat ((lower + upper) div 2)
     \<Longrightarrow> spec_search S q lower upper
         = apfst (Cons ((lower + upper) div 2)) (spec_search S q lower ((lower + upper) div 2 - 1))"
  by (subst spec_search.simps) (simp add: Let_def)

lemma spec_search_right:
  "lower \<le> upper \<Longrightarrow> S ! nat ((lower + upper) div 2) \<noteq> q \<Longrightarrow> \<not> q < S ! nat ((lower + upper) div 2)
     \<Longrightarrow> spec_search S q lower upper
         = apfst (Cons ((lower + upper) div 2)) (spec_search S q ((lower + upper) div 2 + 1) upper)"
  by (subst spec_search.simps) (simp add: Let_def)

lemma spec_search_cases [consumes 1, case_names hit left right]:
  assumes "lower \<le> upper"
    and "S ! nat ((lower + upper) div 2) = q \<Longrightarrow> P"
    and "S ! nat ((lower + upper) div 2) \<noteq> q \<Longrightarrow> q < S ! nat ((lower + upper) div 2) \<Longrightarrow> P"
    and "S ! nat ((lower + upper) div 2) \<noteq> q \<Longrightarrow> \<not> q < S ! nat ((lower + upper) div 2) \<Longrightarrow> P"
  shows P
  using assms by blast

text \<open>The index returned lies in \<open>[lower - 1, upper]\<close>, every probe in \<open>[lower, upper]\<close>.\<close>

lemma spec_search_index_range:
  "lower \<le> upper + 1 \<Longrightarrow>
     lower - 1 \<le> snd (spec_search S q lower upper) \<and> snd (spec_search S q lower upper) \<le> upper"
proof (induction S q lower upper rule: spec_search.induct)
  case (1 S q lower upper)
  show ?case
  proof (cases "lower \<le> upper")
    case False
    with "1.prems" show ?thesis by (simp add: spec_search_exit)
  next
    case True
    define idx where "idx = (lower + upper) div 2"
    have bnd: "lower \<le> idx" "idx \<le> upper"
      using True unfolding idx_def by linarith+
    from True show ?thesis
    proof (cases rule: spec_search_cases [where S = S and q = q])
      case hit
      then show ?thesis using True bnd by (simp add: spec_search_hit idx_def)
    next
      case left
      have "lower - 1 \<le> snd (spec_search S q lower (idx - 1))
              \<and> snd (spec_search S q lower (idx - 1)) \<le> idx - 1"
        using left bnd by (intro "1.IH"(1) [OF True idx_def refl]) (simp_all add: idx_def)
      then show ?thesis using True left bnd by (simp add: spec_search_left idx_def)
    next
      case right
      have "idx + 1 - 1 \<le> snd (spec_search S q (idx + 1) upper)
              \<and> snd (spec_search S q (idx + 1) upper) \<le> upper"
        using right bnd by (intro "1.IH"(2) [OF True idx_def refl]) (simp_all add: idx_def)
      then show ?thesis using True right bnd by (simp add: spec_search_right idx_def)
    qed
  qed
qed

lemma spec_search_path_range:
  "j \<in> set (fst (spec_search S q lower upper)) \<Longrightarrow> lower \<le> j \<and> j \<le> upper"
proof (induction S q lower upper rule: spec_search.induct)
  case (1 S q lower upper)
  show ?case
  proof (cases "lower \<le> upper")
    case False
    with "1.prems" show ?thesis by (simp add: spec_search_exit)
  next
    case True
    define idx where "idx = (lower + upper) div 2"
    have bnd: "lower \<le> idx" "idx \<le> upper"
      using True unfolding idx_def by linarith+
    from True show ?thesis
    proof (cases rule: spec_search_cases [where S = S and q = q])
      case hit
      then show ?thesis using True bnd "1.prems" by (simp add: spec_search_hit idx_def)
    next
      case left
      then have "j = idx \<or> j \<in> set (fst (spec_search S q lower (idx - 1)))"
        using True "1.prems" by (simp add: spec_search_left idx_def)
      then show ?thesis
      proof
        assume "j = idx" then show ?thesis using bnd by simp
      next
        assume "j \<in> set (fst (spec_search S q lower (idx - 1)))"
        then have "lower \<le> j \<and> j \<le> idx - 1"
          using left by (intro "1.IH"(1) [OF True idx_def refl]) (simp_all add: idx_def)
        then show ?thesis using bnd by simp
      qed
    next
      case right
      then have "j = idx \<or> j \<in> set (fst (spec_search S q (idx + 1) upper))"
        using True "1.prems" by (simp add: spec_search_right idx_def)
      then show ?thesis
      proof
        assume "j = idx" then show ?thesis using bnd by simp
      next
        assume "j \<in> set (fst (spec_search S q (idx + 1) upper))"
        then have "idx + 1 \<le> j \<and> j \<le> upper"
          using right by (intro "1.IH"(2) [OF True idx_def refl]) (simp_all add: idx_def)
        then show ?thesis using bnd by simp
      qed
    qed
  qed
qed


text \<open>
  On a sorted sequence: with every entry left of \<open>lower\<close> below the query and every
  entry right of \<open>upper\<close> above it, the search either stops at a probe that holds the
  query, the first such probe of its path, or ends at the index that separates the
  entries below the query from the entries above it.
\<close>

lemma spec_search_sorted:
  "sorted S \<Longrightarrow> 0 \<le> lower \<Longrightarrow> upper < int (length S) \<Longrightarrow> lower \<le> upper + 1
   \<Longrightarrow> \<forall>k<length S. int k < lower \<longrightarrow> S ! k < q
   \<Longrightarrow> \<forall>k<length S. upper < int k \<longrightarrow> q < S ! k
   \<Longrightarrow> (0 \<le> snd (spec_search S q lower upper) \<and> snd (spec_search S q lower upper) < int (length S)
          \<and> S ! nat (snd (spec_search S q lower upper)) = q
          \<and> find (\<lambda>j. S ! nat j = q) (fst (spec_search S q lower upper))
              = Some (snd (spec_search S q lower upper)))
     \<or> ((\<forall>k<length S. int k \<le> snd (spec_search S q lower upper) \<longrightarrow> S ! k < q)
          \<and> (\<forall>k<length S. snd (spec_search S q lower upper) < int k \<longrightarrow> q < S ! k)
          \<and> find (\<lambda>j. S ! nat j = q) (fst (spec_search S q lower upper)) = None)"
proof (induction S q lower upper rule: spec_search.induct)
  case (1 S q lower upper)
  show ?case
  proof (cases "lower \<le> upper")
    case False
    then have "lower = upper + 1" using "1.prems" by simp
    then show ?thesis using False "1.prems" by (simp add: spec_search_exit)
  next
    case True
    define idx where "idx = (lower + upper) div 2"
    have bnd: "lower \<le> idx" "idx \<le> upper" "0 \<le> idx" "idx < int (length S)"
      using True "1.prems" unfolding idx_def by linarith+
    from True show ?thesis
    proof (cases rule: spec_search_cases [where S = S and q = q])
      case hit
      then show ?thesis using True bnd by (simp add: spec_search_hit idx_def)
    next
      case left
      have above: "\<forall>k<length S. idx - 1 < int k \<longrightarrow> q < S ! k"
      proof (intro allI impI)
        fix k assume k: "k < length S" "idx - 1 < int k"
        then have "nat idx \<le> k" by linarith
        then have "S ! nat idx \<le> S ! k"
          using \<open>sorted S\<close> k by (simp add: sorted_nth_mono)
        then show "q < S ! k" using left by (simp add: idx_def)
      qed
      have sub: "spec_search S q lower upper = apfst (Cons idx) (spec_search S q lower (idx - 1))"
        using True left by (simp add: spec_search_left idx_def)
      have "(0 \<le> snd (spec_search S q lower (idx - 1))
             \<and> snd (spec_search S q lower (idx - 1)) < int (length S)
             \<and> S ! nat (snd (spec_search S q lower (idx - 1))) = q
             \<and> find (\<lambda>j. S ! nat j = q) (fst (spec_search S q lower (idx - 1)))
                 = Some (snd (spec_search S q lower (idx - 1))))
          \<or> ((\<forall>k<length S. int k \<le> snd (spec_search S q lower (idx - 1)) \<longrightarrow> S ! k < q)
             \<and> (\<forall>k<length S. snd (spec_search S q lower (idx - 1)) < int k \<longrightarrow> q < S ! k)
             \<and> find (\<lambda>j. S ! nat j = q) (fst (spec_search S q lower (idx - 1))) = None)"
        using left bnd "1.prems" above
        by (intro "1.IH"(1) [OF True idx_def refl]) (simp_all add: idx_def)
      then show ?thesis using left by (simp add: sub idx_def)
    next
      case right
      then have lt: "S ! nat idx < q" by (simp add: idx_def)
      have below: "\<forall>k<length S. int k < idx + 1 \<longrightarrow> S ! k < q"
      proof (intro allI impI)
        fix k assume k: "k < length S" "int k < idx + 1"
        then have "k \<le> nat idx" by linarith
        moreover have "nat idx < length S" using bnd by linarith
        ultimately have "S ! k \<le> S ! nat idx"
          using \<open>sorted S\<close> by (simp add: sorted_nth_mono)
        then show "S ! k < q" using lt by simp
      qed
      have sub: "spec_search S q lower upper = apfst (Cons idx) (spec_search S q (idx + 1) upper)"
        using True right by (simp add: spec_search_right idx_def)
      have "(0 \<le> snd (spec_search S q (idx + 1) upper)
             \<and> snd (spec_search S q (idx + 1) upper) < int (length S)
             \<and> S ! nat (snd (spec_search S q (idx + 1) upper)) = q
             \<and> find (\<lambda>j. S ! nat j = q) (fst (spec_search S q (idx + 1) upper))
                 = Some (snd (spec_search S q (idx + 1) upper)))
          \<or> ((\<forall>k<length S. int k \<le> snd (spec_search S q (idx + 1) upper) \<longrightarrow> S ! k < q)
             \<and> (\<forall>k<length S. snd (spec_search S q (idx + 1) upper) < int k \<longrightarrow> q < S ! k)
             \<and> find (\<lambda>j. S ! nat j = q) (fst (spec_search S q (idx + 1) upper)) = None)"
        using right bnd "1.prems" below
        by (intro "1.IH"(2) [OF True idx_def refl]) (simp_all add: idx_def)
      then show ?thesis using right by (simp add: sub idx_def)
    qed
  qed
qed

section \<open>Arrays of at most \<open>2^30\<close> entries\<close>

text \<open>
  What the search returns and reads when the array has at most \<open>1073741824\<close> entries,
  sorted or not, and what that means on a sorted array.
\<close>

lemma binary_search_run_refines:
  assumes "length S \<le> 1073741824"
  shows "binary_search_run S q
           = Some (fst (spec_search S q 0 (int (length S) - 1)),
                   Inr (snd (spec_search S q 0 (int (length S) - 1))))"
proof -
  have "to_int (int (length S) - 1) = int (length S) - 1"
    using assms by (intro to_int_id) linarith+
  moreover have "search_loop S q 0 (int (length S) - 1) []
      = Some ([] @ fst (spec_search S q 0 (int (length S) - 1)),
              Inr (snd (spec_search S q 0 (int (length S) - 1))))"
    using assms by (intro search_loop_refines) simp_all
  ultimately show ?thesis by (simp add: binary_search_run_def)
qed

lemma binary_search_refines:
  "length S \<le> 1073741824 \<Longrightarrow>
     binary_search S q = Some (Inr (snd (spec_search S q 0 (int (length S) - 1))))"
  by (simp add: binary_search_def binary_search_run_refines)

lemma probes_refines:
  "length S \<le> 1073741824 \<Longrightarrow> probes S q = Some (fst (spec_search S q 0 (int (length S) - 1)))"
  by (simp add: probes_def binary_search_run_refines)

lemma spec_search_sorted_whole:
  fixes S :: "uint list" and q :: uint
  defines "i \<equiv> snd (spec_search S q 0 (int (length S) - 1))"
    and "p \<equiv> fst (spec_search S q 0 (int (length S) - 1))"
  assumes "sorted S"
  shows "(0 \<le> i \<and> i < int (length S) \<and> S ! nat i = q \<and> find (\<lambda>j. S ! nat j = q) p = Some i)
       \<or> ((\<forall>k<length S. int k \<le> i \<longrightarrow> S ! k < q) \<and> (\<forall>k<length S. i < int k \<longrightarrow> q < S ! k)
           \<and> find (\<lambda>j. S ! nat j = q) p = None)"
  unfolding i_def p_def using assms(3) by (intro spec_search_sorted) simp_all

lemma spec_search_whole_range:
  "- 1 \<le> snd (spec_search S q 0 (int (length S) - 1))
     \<and> snd (spec_search S q 0 (int (length S) - 1)) \<le> int (length S) - 1"
  using spec_search_index_range [of 0 "int (length S) - 1" S q] by simp

lemma predecessor_below_limit:
  assumes "length S \<le> 1073741824" "sorted S" "q \<notin> set S"
  shows "\<exists>i. binary_search S q = Some (Inr i) \<and> - 1 \<le> i \<and> i \<le> int (length S) - 1
           \<and> (\<forall>k<length S. S ! k < q \<longleftrightarrow> int k \<le> i)
           \<and> (\<forall>j. Suc j < length S \<and> S ! j < q \<and> q < S ! Suc j \<longrightarrow> i = int j)"
proof -
  define i where "i = snd (spec_search S q 0 (int (length S) - 1))"
  have run: "binary_search S q = Some (Inr i)"
    using assms(1) by (simp add: binary_search_refines i_def)
  have rng: "- 1 \<le> i" "i \<le> int (length S) - 1"
    using spec_search_whole_range [of S q] by (simp_all add: i_def)
  have nohit: "\<not> (0 \<le> i \<and> i < int (length S) \<and> S ! nat i = q)"
  proof
    assume h: "0 \<le> i \<and> i < int (length S) \<and> S ! nat i = q"
    then have "nat i < length S" by linarith
    then have "S ! nat i \<in> set S" by (rule nth_mem)
    with h assms(3) show False by simp
  qed
  have sep: "(\<forall>k<length S. int k \<le> i \<longrightarrow> S ! k < q) \<and> (\<forall>k<length S. i < int k \<longrightarrow> q < S ! k)"
    using spec_search_sorted_whole [OF assms(2), of q] nohit unfolding i_def by blast
  have iff: "\<forall>k<length S. S ! k < q \<longleftrightarrow> int k \<le> i"
  proof (intro allI impI iffI)
    fix k assume k: "k < length S" "S ! k < q"
    show "int k \<le> i"
    proof (rule ccontr)
      assume "\<not> int k \<le> i"
      then have "q < S ! k" using sep k by simp
      with k show False by simp
    qed
  next
    fix k assume "k < length S" "int k \<le> i"
    then show "S ! k < q" using sep by simp
  qed
  have adj: "\<forall>j. Suc j < length S \<and> S ! j < q \<and> q < S ! Suc j \<longrightarrow> i = int j"
  proof (intro allI impI)
    fix j assume j: "Suc j < length S \<and> S ! j < q \<and> q < S ! Suc j"
    then have "j < length S" "S ! j < q" by simp_all
    then have "int j \<le> i" using iff by blast
    moreover have "\<not> int (Suc j) \<le> i"
    proof
      assume "int (Suc j) \<le> i"
      then have "S ! Suc j < q" using iff j by blast
      with j show False by (auto dest: order.asym)
    qed
    ultimately show "i = int j" by simp
  qed
  show ?thesis using run rng iff adj by blast
qed

lemma exact_match_below_limit:
  assumes "length S \<le> 1073741824" "sorted S" "q \<in> set S"
  shows "\<exists>i. binary_search S q = Some (Inr i) \<and> 0 \<le> i \<and> i < int (length S) \<and> S ! nat i = q
           \<and> (\<exists>p. probes S q = Some p \<and> find (\<lambda>j. S ! nat j = q) p = Some i)"
proof -
  define i where "i = snd (spec_search S q 0 (int (length S) - 1))"
  define p where "p = fst (spec_search S q 0 (int (length S) - 1))"
  have run: "binary_search S q = Some (Inr i)" "probes S q = Some p"
    using assms(1) by (simp_all add: binary_search_refines probes_refines i_def p_def)
  obtain k where k: "k < length S" "S ! k = q"
    using assms(3) by (auto simp: in_set_conv_nth)
  have "\<not> ((\<forall>k<length S. int k \<le> i \<longrightarrow> S ! k < q) \<and> (\<forall>k<length S. i < int k \<longrightarrow> q < S ! k))"
  proof
    assume sep: "(\<forall>k<length S. int k \<le> i \<longrightarrow> S ! k < q) \<and> (\<forall>k<length S. i < int k \<longrightarrow> q < S ! k)"
    show False
    proof (cases "int k \<le> i")
      case True
      then have "S ! k < q" using sep k(1) by blast
      with k(2) show False by simp
    next
      case False
      then have "q < S ! k" using sep k(1) by force
      with k(2) show False by simp
    qed
  qed
  then have "0 \<le> i \<and> i < int (length S) \<and> S ! nat i = q \<and> find (\<lambda>j. S ! nat j = q) p = Some i"
    using spec_search_sorted_whole [OF assms(2), of q] unfolding i_def p_def by blast
  then show ?thesis using run by simp
qed


lemma spec_search_separates:
  fixes S :: "uint list" and q :: uint
  defines "i \<equiv> snd (spec_search S q 0 (int (length S) - 1))"
  assumes "sorted S"
  shows "(\<forall>k<length S. int k \<le> i \<longrightarrow> S ! k \<le> q) \<and> (\<forall>k<length S. i < int k \<longrightarrow> q \<le> S ! k)"
proof -
  consider (hit) "0 \<le> i" "i < int (length S)" "S ! nat i = q"
    | (miss) "\<forall>k<length S. int k \<le> i \<longrightarrow> S ! k < q" "\<forall>k<length S. i < int k \<longrightarrow> q < S ! k"
    using spec_search_sorted_whole [OF assms(2), of q] unfolding i_def by blast
  then show ?thesis
  proof cases
    case hit
    have "S ! k \<le> q" if "k < length S" "int k \<le> i" for k
    proof -
      have "k \<le> nat i" "nat i < length S" using that hit by linarith+
      then have "S ! k \<le> S ! nat i" using \<open>sorted S\<close> by (simp add: sorted_nth_mono)
      then show ?thesis using hit by simp
    qed
    moreover have "q \<le> S ! k" if "k < length S" "i < int k" for k
    proof -
      have "nat i \<le> k" using that hit by linarith
      then have "S ! nat i \<le> S ! k" using \<open>sorted S\<close> that by (simp add: sorted_nth_mono)
      then show ?thesis using hit by simp
    qed
    ultimately show ?thesis by blast
  next
    case miss
    then show ?thesis by (simp add: less_imp_le)
  qed
qed

lemma ends_below_limit:
  assumes "length S \<le> 1073741824" "sorted S" "S \<noteq> []"
  shows "(q < S ! 0 \<longrightarrow> binary_search S q = Some (Inr (- 1)))
       \<and> (S ! (length S - 1) < q \<longrightarrow> binary_search S q = Some (Inr (int (length S) - 1)))"
proof (intro conjI impI)
  assume lo: "q < S ! 0"
  have "q \<notin> set S"
  proof
    assume "q \<in> set S"
    then obtain k where k: "k < length S" "S ! k = q" by (auto simp: in_set_conv_nth)
    have "S ! 0 \<le> S ! k" using \<open>sorted S\<close> k(1) by (intro sorted_nth_mono) simp_all
    with k(2) lo show False by simp
  qed
  then obtain i where i: "binary_search S q = Some (Inr i)" "- 1 \<le> i"
      "\<forall>k<length S. S ! k < q \<longleftrightarrow> int k \<le> i"
    using predecessor_below_limit [OF assms(1,2)] by blast
  have "0 < length S" using assms(3) by simp
  then have "S ! 0 < q \<longleftrightarrow> int 0 \<le> i" using i(3) by blast
  moreover have "\<not> S ! 0 < q" using lo by (auto dest: order.asym)
  ultimately have "i = - 1" using i(2) by simp
  then show "binary_search S q = Some (Inr (- 1))" using i(1) by simp
next
  assume hi: "S ! (length S - 1) < q"
  have n: "length S - 1 < length S" using assms(3) by simp
  have "q \<notin> set S"
  proof
    assume "q \<in> set S"
    then obtain k where k: "k < length S" "S ! k = q" by (auto simp: in_set_conv_nth)
    have "S ! k \<le> S ! (length S - 1)" using \<open>sorted S\<close> n k(1) by (intro sorted_nth_mono) simp_all
    with k(2) hi show False by simp
  qed
  then obtain i where i: "binary_search S q = Some (Inr i)" "i \<le> int (length S) - 1"
      "\<forall>k<length S. S ! k < q \<longleftrightarrow> int k \<le> i"
    using predecessor_below_limit [OF assms(1,2)] by blast
  have "int (length S - 1) \<le> i" using i(3) n hi by blast
  then have "i = int (length S) - 1" using i(2) n by linarith
  then show "binary_search S q = Some (Inr (int (length S) - 1))" using i(1) by simp
qed

lemma index_range_below_limit:
  assumes "length S \<le> 1073741824"
  shows "\<exists>i. binary_search S q = Some (Inr i) \<and> - 1 \<le> i \<and> i \<le> int (length S) - 1"
  using assms spec_search_whole_range [of S q] by (simp add: binary_search_refines)

lemma reads_in_bounds_below_limit:
  assumes "length S \<le> 1073741824"
  shows "\<exists>p. probes S q = Some p \<and> (\<forall>j\<in>set p. 0 \<le> j \<and> j \<le> int (length S) - 1)"
  using assms spec_search_path_range [of _ S q 0 "int (length S) - 1"]
  by (simp add: probes_refines)

lemma monotone_below_limit:
  assumes "length S \<le> 1073741824" "sorted S" "q1 \<le> q2"
  shows "\<exists>i1 i2. binary_search S q1 = Some (Inr i1) \<and> binary_search S q2 = Some (Inr i2)
           \<and> i1 \<le> i2"
proof -
  define i1 where "i1 = snd (spec_search S q1 0 (int (length S) - 1))"
  define i2 where "i2 = snd (spec_search S q2 0 (int (length S) - 1))"
  have run: "binary_search S q1 = Some (Inr i1)" "binary_search S q2 = Some (Inr i2)"
    using assms(1) by (simp_all add: binary_search_refines i1_def i2_def)
  have "i1 \<le> i2"
  proof (cases "q1 = q2")
    case True
    then show ?thesis by (simp add: i1_def i2_def)
  next
    case False
    then have lt: "q1 < q2" using assms(3) by simp
    show ?thesis
    proof (rule ccontr)
      assume "\<not> i1 \<le> i2"
      moreover have "- 1 \<le> i2" "i1 \<le> int (length S) - 1"
        using spec_search_whole_range [of S q2] spec_search_whole_range [of S q1]
        by (simp_all add: i1_def i2_def)
      ultimately have k: "nat i1 < length S" "int (nat i1) \<le> i1" "i2 < int (nat i1)"
        by linarith+
      have "S ! nat i1 \<le> q1"
        using spec_search_separates [OF assms(2), of q1] k(1,2) unfolding i1_def by blast
      moreover have "q2 \<le> S ! nat i1"
        using spec_search_separates [OF assms(2), of q2] k(1,3) unfolding i2_def by blast
      ultimately show False using lt by simp
    qed
  qed
  then show ?thesis using run by simp
qed

section \<open>Every run of the model ends\<close>

text \<open>
  A run of the model ends after at most as many reads as the array has entries, with the
  index returned or at a read outside the array. On arrays of at most \<open>2^30\<close> entries
  it ends with the index returned: the call runs to completion.
\<close>

lemma to_int_length_le: "to_int (int n - 1) \<le> int n - 1"
proof (cases n)
  case 0
  then show ?thesis by (simp add: to_int_def)
next
  case (Suc m)
  then show ?thesis using to_int_le [of "int n - 1"] by simp
qed

lemma run_ends:
  "\<exists>p res. binary_search_run S q = Some (p, res) \<and> length p \<le> length S"
proof -
  define upper where "upper = to_int (int (length S) - 1)"
  have "upper \<le> 2147483647" using to_int_range [of "int (length S) - 1"] by (simp add: upper_def)
  then obtain new res where r: "search_loop S q 0 upper [] = Some ([] @ new, res)"
      "int (length new) \<le> max 0 (upper - 0 + 1)"
    using search_loop_returns [of 0 upper S q "[]"] by auto
  have "upper \<le> int (length S) - 1" unfolding upper_def by (rule to_int_length_le)
  with r(2) have "length new \<le> length S" by simp
  with r(1) show ?thesis by (simp add: binary_search_run_def upper_def)
qed

lemma terminates_below_limit:
  assumes "length S \<le> 1073741824"
  shows "\<exists>p i. binary_search_run S q = Some (p, Inr i) \<and> length p \<le> length S"
proof -
  obtain p res where r: "binary_search_run S q = Some (p, res)" "length p \<le> length S"
    using run_ends [of S q] by blast
  moreover have "binary_search_run S q
      = Some (fst (spec_search S q 0 (int (length S) - 1)),
              Inr (snd (spec_search S q 0 (int (length S) - 1))))"
    using assms by (rule binary_search_run_refines)
  ultimately have "res = Inr (snd (spec_search S q 0 (int (length S) - 1)))" by simp
  with r show ?thesis by blast
qed

section \<open>Arrays of more than \<open>2^30\<close> entries\<close>

text \<open>
  An array of \<open>2^31 - 1\<close> entries whose middle entry is below the query. The first
  iteration reads index \<open>1073741823\<close> and sets \<open>lower\<close> to \<open>1073741824\<close>; in the second,
  \<open>lower + upper = 1073741824 + 2147483646\<close> exceeds \<open>INT_MAX\<close>, the sum wraps to
  \<open>- 1073741826\<close>, \<open>idx\<close> is \<open>- 536870913\<close> and the entry is read in front of the array.
\<close>

lemma overflow_first_step:
  assumes "length S = 2147483647" "S ! 1073741823 < q"
  shows "binary_search_run S q = search_loop S q 1073741824 2147483646 [1073741823]"
proof -
  have ne: "S ! nat 1073741823 \<noteq> q" "\<not> q < S ! nat 1073741823"
    using assms(2) by (auto dest: order.asym)
  have upper: "to_int (int (length S) - 1) = 2147483646"
    using assms(1) by (simp add: to_int_def)
  have m1: "1073741823 = int_div (int_add 0 2147483646) 2"
    by (simp add: int_div_def int_add_def to_int_def)
  have next_lower: "int_add 1073741823 1 = 1073741824"
    by (simp add: int_add_def to_int_def)
  have "search_loop S q 0 2147483646 []
          = search_loop S q (int_add 1073741823 1) 2147483646 ([] @ [1073741823])"
    using assms(1) ne by (intro search_loop_right [OF _ m1]) simp_all
  then show ?thesis by (simp add: binary_search_run_def upper next_lower)
qed

lemma overflow_midpoint:
  "int_add 1073741824 2147483646 = - 1073741826"
  "int_div (- 1073741826) 2 = - 536870913"
  by (simp_all add: int_div_def int_add_def to_int_def)

lemma overflow_run:
  assumes "length S = 2147483647" "S ! 1073741823 < q"
  shows "binary_search_run S q
           = Some ([1073741823, - 536870913], Inl (OutOfBounds (- 536870913)))"
proof -
  have "search_loop S q 1073741824 2147483646 [1073741823]
          = Some ([1073741823] @ [- 536870913], Inl (OutOfBounds (- 536870913)))"
    by (intro search_loop_fault) (simp_all add: overflow_midpoint)
  then show ?thesis using overflow_first_step [OF assms] by simp
qed

text \<open>
  The shortest array on which the sum overflows has \<open>2^30 + 1\<close> entries: with every
  entry below the query the bounds reach \<open>lower = upper = 1073741824\<close>.
\<close>

lemma limit_is_sharp:
  "binary_search (replicate 1073741825 0) 1 = Some (Inl (OutOfBounds (- 1073741824)))"
  by (simp add: binary_search_def binary_search_run_def search_loop.simps
      to_int_def int_add_def int_sub_def int_div_def Let_def)

text \<open>
  On the array of \<open>2^31 - 1\<close> entries \<open>0\<close> the search of the specification, for the
  query \<open>1\<close>, returns the last index.
\<close>

lemma spec_search_on_long_array:
  "snd (spec_search (replicate 2147483647 0) 1 0 2147483646) = 2147483646"
proof -
  define S :: "uint list" where "S = replicate 2147483647 0"
  define i where "i = snd (spec_search S 1 0 (int (length S) - 1))"
  have len: "length S = 2147483647" by (simp add: S_def)
  have rng: "i \<le> int (length S) - 1"
    using spec_search_whole_range [of S 1] by (simp add: i_def)
  have "sorted S" by (simp add: S_def)
  then have sep: "(0 \<le> i \<and> i < int (length S) \<and> S ! nat i = 1)
      \<or> (\<forall>k<length S. i < int k \<longrightarrow> 1 < S ! k)"
    using spec_search_sorted_whole [of S 1] unfolding i_def by blast
  have zero: "S ! k = 0" if "k < length S" for k
    using that by (simp add: S_def)
  have "\<not> i < 2147483646"
  proof
    assume less: "i < 2147483646"
    from sep show False
    proof
      assume hit: "0 \<le> i \<and> i < int (length S) \<and> S ! nat i = 1"
      then have "nat i < length S" by linarith
      then have "S ! nat i = 0" by (rule zero)
      with hit show False by simp
    next
      assume miss: "\<forall>k<length S. i < int k \<longrightarrow> 1 < S ! k"
      have "(2147483646::nat) < length S" by (simp add: len)
      moreover have "i < int 2147483646" using less by simp
      ultimately have "1 < S ! 2147483646" using miss by blast
      then show False using zero [of 2147483646] len by simp
    qed
  qed
  then have "i = 2147483646" using rng len by simp
  then show ?thesis by (simp add: i_def S_def)
qed

section \<open>The scenarios of the specification\<close>

lemmas run_simps = binary_search_def probes_def binary_search_run_def search_loop.simps
  to_int_def int_add_def int_sub_def int_div_def Let_def

lemma scenario_1: "binary_search [10, 20, 30, 40] 30 = Some (Inr 2)"
  by (simp add: run_simps)

lemma scenario_2: "binary_search [10, 20, 30, 40] 25 = Some (Inr 1)"
  by (simp add: run_simps)

lemma scenario_3: "binary_search [10, 20, 30, 40] 5 = Some (Inr (- 1))"
  by (simp add: run_simps)

lemma scenario_4: "binary_search [10, 20, 30, 40] 99 = Some (Inr 3)"
  by (simp add: run_simps)

lemma scenario_5: "binary_search [] 1 = Some (Inr (- 1))"
  by (simp add: run_simps)

lemma scenario_6: "binary_search [5] 5 = Some (Inr 0)"
  by (simp add: run_simps)

lemma scenario_2_probes: "probes [10, 20, 30, 40] 25 = Some [1, 2]"
  by (simp add: run_simps)

section \<open>The claims\<close>

text \<open>
  C1: on a sorted sequence with no entry equal to the query, the search returns the index
  of the last entry below the query; for \<open>S[i] < q < S[i+1]\<close> that is \<open>i\<close>.
  The code does so on arrays of at most \<open>2^30\<close> entries (\<open>predecessor_below_limit\<close>) and
  not on every array: \<open>2147483646\<close> entries \<open>0\<close> followed by one entry \<open>2\<close> are sorted,
  the query \<open>1\<close> lies strictly between the entries at \<open>2147483645\<close> and \<open>2147483646\<close>,
  and the run ends at a read in front of the array instead of returning \<open>2147483645\<close>.
\<close>

theorem predecessor_lost_on_long_array:
  "sorted (replicate 2147483646 (0::uint) @ [2])
   \<and> 1 \<notin> set (replicate 2147483646 (0::uint) @ [2])
   \<and> (replicate 2147483646 (0::uint) @ [2]) ! 2147483645 < 1
   \<and> 1 < (replicate 2147483646 (0::uint) @ [2]) ! 2147483646
   \<and> binary_search (replicate 2147483646 0 @ [2]) 1 = Some (Inl (OutOfBounds (- 536870913)))"
  by (simp add: sorted_append nth_append binary_search_def overflow_run)

text \<open>
  C2: on a sorted sequence that holds the query, the search returns an index whose entry
  equals the query. The code does so on arrays of at most \<open>2^30\<close> entries
  (\<open>exact_match_below_limit\<close>) and not on every array: \<open>2147483646\<close> entries \<open>0\<close>
  followed by one entry \<open>1\<close> are sorted and hold the query \<open>1\<close>, and the run ends at a
  read in front of the array.
\<close>

theorem match_lost_on_long_array:
  "sorted (replicate 2147483646 (0::uint) @ [1])
   \<and> 1 \<in> set (replicate 2147483646 (0::uint) @ [1])
   \<and> binary_search (replicate 2147483646 0 @ [1]) 1 = Some (Inl (OutOfBounds (- 536870913)))"
  by (simp add: sorted_append nth_append binary_search_def overflow_run)

text \<open>
  C3: on the empty sequence the search returns \<open>-1\<close> for every query, as a result and
  not as an error, and reads no entry.
\<close>

theorem search_empty: "binary_search [] q = Some (Inr (- 1)) \<and> probes [] q = Some []"
  by (simp add: binary_search_def probes_def binary_search_run_def to_int_def
      search_loop.simps)

text \<open>
  C4: on a sorted sequence that is not empty, a query below the first entry gives \<open>-1\<close>
  and a query above the last entry gives \<open>n - 1\<close>. The code does so on arrays of at most
  \<open>2^30\<close> entries (\<open>ends_below_limit\<close>) and not on every array: with \<open>2147483647\<close>
  entries \<open>0\<close> and the query \<open>1\<close>, above the last entry, the run ends at a read in front
  of the array instead of returning \<open>2147483646\<close>.
\<close>

theorem last_index_lost_on_long_array:
  "replicate 2147483647 (0::uint) \<noteq> []
   \<and> sorted (replicate 2147483647 (0::uint))
   \<and> last (replicate 2147483647 (0::uint)) < 1
   \<and> int (length (replicate 2147483647 (0::uint))) - 1 = 2147483646
   \<and> binary_search (replicate 2147483647 0) 1 = Some (Inl (OutOfBounds (- 536870913)))"
  by (simp add: binary_search_def overflow_run)

text \<open>
  C5: the search always returns an integer, and it lies in \<open>[-1, n - 1]\<close>. The code does
  so on arrays of at most \<open>2^30\<close> entries (\<open>index_range_below_limit\<close>) and not on every
  array: on \<open>2147483646\<close> entries \<open>3\<close> followed by one entry \<open>0\<close>, with the query \<open>7\<close>,
  the run returns no index.
\<close>

theorem no_index_on_long_array:
  "length (replicate 2147483646 (3::uint) @ [0]) = 2147483647
   \<and> binary_search (replicate 2147483646 3 @ [0]) 7 = Some (Inl (OutOfBounds (- 536870913)))"
  by (simp add: nth_append binary_search_def overflow_run)

text \<open>
  C6: the midpoint is \<open>floor((lower + upper) / 2)\<close> for every pair of bounds the loop
  reaches, the type of the indices being wide enough for \<open>lower + upper\<close>. In the code
  the type is \<open>int\<close> and the length of the array a \<open>long\<close>: the sum fits as long as the
  array has at most \<open>2^30\<close> entries (\<open>midpoint_exact\<close>, used by
  \<open>search_loop_refines\<close>). On \<open>2147483647\<close> entries \<open>0\<close> and the query \<open>1\<close> the call
  reaches \<open>lower = 1073741824\<close>, \<open>upper = 2147483646\<close>; their sum exceeds \<open>INT_MAX\<close>,
  and the midpoint computed is \<open>- 536870913\<close>, not \<open>1610612735\<close>.
\<close>

theorem midpoint_wrong_on_long_array:
  "binary_search_run (replicate 2147483647 0) 1
     = search_loop (replicate 2147483647 0) 1 1073741824 2147483646 [1073741823]
   \<and> INT_MAX < 1073741824 + 2147483646
   \<and> int_div (int_add 1073741824 2147483646) 2 = - 536870913
   \<and> (1073741824 + 2147483646) div 2 = (1610612735::int)"
  by (simp add: overflow_first_step overflow_midpoint INT_MAX_def)

text \<open>
  C7: on a sorted sequence that holds the query, the search returns the first index of
  its probe path whose entry equals the query, and with duplicates that index need not be
  the lowest one. The second half holds: on \<open>[5, 5, 5]\<close> the search for \<open>5\<close> probes index
  \<open>1\<close> and returns it, while index \<open>0\<close> holds \<open>5\<close> too. The first half holds on arrays of
  at most \<open>2^30\<close> entries (\<open>exact_match_below_limit\<close>) and not on every array: on
  \<open>2147483645\<close> entries \<open>0\<close> followed by two entries \<open>1\<close>, the run for the query \<open>1\<close>
  ends at a read in front of the array, and no index is returned.
\<close>

theorem first_match_on_path:
  "binary_search [5, 5, 5] 5 = Some (Inr 1) \<and> probes [5, 5, 5] 5 = Some [1]
   \<and> [5, 5, 5 :: uint] ! 0 = 5
   \<and> sorted (replicate 2147483645 (0::uint) @ [1, 1])
   \<and> 1 \<in> set (replicate 2147483645 (0::uint) @ [1, 1])
   \<and> binary_search (replicate 2147483645 0 @ [1, 1]) 1
        = Some (Inl (OutOfBounds (- 536870913)))"
proof -
  have "binary_search [5, 5, 5] 5 = Some (Inr 1) \<and> probes [5, 5, 5] 5 = Some [1]"
    by (simp add: run_simps)
  moreover have "binary_search (replicate 2147483645 0 @ [1, 1]) 1
                   = Some (Inl (OutOfBounds (- 536870913)))"
    by (simp add: nth_append binary_search_def overflow_run)
  ultimately show ?thesis by (simp add: sorted_append)
qed

text \<open>
  C8: for every sequence, sorted or not, and every query the loop terminates, each
  iteration either returning or strictly shrinking the interval \<open>[lower, upper]\<close>. The
  code does so on arrays of at most \<open>2^30\<close> entries (\<open>terminates_below_limit\<close>) and not
  on every array: on \<open>2147483647\<close> entries \<open>0\<close> and the query \<open>1\<close> the second iteration,
  at \<open>lower = 1073741824\<close> and \<open>upper = 2147483646\<close>, has its midpoint
  \<open>- 536870913\<close> below \<open>lower\<close> and reads the entry in front of the array. It does not
  return, and line 44, run on a value below the query, would set \<open>lower\<close> to
  \<open>- 536870912\<close>: an interval of \<open>2684354559\<close> indices after one of \<open>1073741823\<close>.
\<close>

theorem interval_not_shrunk_on_long_array:
  "binary_search_run (replicate 2147483647 0) 1
     = Some ([1073741823, - 536870913], Inl (OutOfBounds (- 536870913)))
   \<and> int_div (int_add 1073741824 2147483646) 2 < 1073741824
   \<and> int_add (int_div (int_add 1073741824 2147483646) 2) 1 = - 536870912
   \<and> 2147483646 - 1073741824 + 1 < 2147483646 - int_add (- 536870913) 1 + 1"
proof -
  have "binary_search_run (replicate 2147483647 0) 1
          = Some ([1073741823, - 536870913], Inl (OutOfBounds (- 536870913)))"
    by (simp add: overflow_run)
  moreover have "int_add (- 536870913) 1 = - 536870912"
    by (simp add: int_add_def to_int_def)
  ultimately show ?thesis by (simp add: overflow_midpoint)
qed

text \<open>
  C9: every index at which an entry is read lies in \<open>[0, n - 1]\<close>. The code reads so on
  arrays of at most \<open>2^30\<close> entries (\<open>reads_in_bounds_below_limit\<close>) and not on every
  array: on \<open>2147483647\<close> entries \<open>0\<close> and the query \<open>1\<close> the second read is at index
  \<open>- 536870913\<close>.
\<close>

theorem read_out_of_bounds_on_long_array:
  "probes (replicate 2147483647 0) 1 = Some [1073741823, - 536870913]
   \<and> (- 536870913 :: int) < 0"
  by (simp add: probes_def overflow_run)

text \<open>
  C10: on a sorted sequence the index returned is monotone in the query. The code is so
  on arrays of at most \<open>2^30\<close> entries (\<open>monotone_below_limit\<close>) and not on every array:
  on \<open>2147483647\<close> entries \<open>0\<close> the query \<open>0\<close> returns \<open>1073741823\<close> and the larger query
  \<open>1\<close> returns no index.
\<close>

theorem monotone_lost_on_long_array:
  "(0::uint) \<le> 1
   \<and> sorted (replicate 2147483647 (0::uint))
   \<and> binary_search (replicate 2147483647 0) 0 = Some (Inr 1073741823)
   \<and> binary_search (replicate 2147483647 0) 1 = Some (Inl (OutOfBounds (- 536870913)))"
proof -
  have "binary_search (replicate 2147483647 0) 0 = Some (Inr 1073741823)"
    by (simp add: run_simps)
  moreover have "binary_search (replicate 2147483647 0) 1
                   = Some (Inl (OutOfBounds (- 536870913)))"
    by (simp add: binary_search_def overflow_run)
  ultimately show ?thesis by simp
qed

end
